theory Spec2Isabelle
  imports Main "HOL-Library.Word"
begin

section \<open>Bed: a tab-separated record over a fixed tuple of fields (NaTa\_bed.hpp)\<close>

subsection \<open>Data model\<close>

text \<open>
  \<^verbatim>\<open>Bed<TUPLETYPE>\<close> holds one \<^verbatim>\<open>std::tuple\<close>. The element types the code
  distinguishes are \<^verbatim>\<open>int32_t\<close>, \<^verbatim>\<open>std::string\<close> and \<^verbatim>\<open>char\<close>; a tuple
  value is a list of fields, and the constructors of that list are the schema
  (\<^verbatim>\<open>TUPLETYPE\<close>). The fourth branch of \<^verbatim>\<open>to_tuple\<close> (any other element type,
  assigned the raw token) is reached by none of the three supported types and is
  not part of the model.
\<close>

datatype ftype = TInt | TText | TChar

datatype field = FInt "32 word" | FText string | FChar char

type_synonym bed = "field list"

fun type_of :: "field \<Rightarrow> ftype" where
  "type_of (FInt _) = TInt"
| "type_of (FText _) = TText"
| "type_of (FChar _) = TChar"

definition schema_of :: "bed \<Rightarrow> ftype list" where
  "schema_of r = map type_of r"

text \<open>\<^verbatim>\<open>Bed():data()\<close>: every element value-initialised.\<close>

fun default_field :: "ftype \<Rightarrow> field" where
  "default_field TInt = FInt 0"
| "default_field TText = FText []"
| "default_field TChar = FChar (CHR 0x00)"

definition Bed :: "ftype list \<Rightarrow> bed" where
  "Bed schema = map default_field schema"

text \<open>\<^verbatim>\<open>get_data<N>()\<close>: a copy of element \<open>N\<close>; \<open>N\<close> out of range does not compile.\<close>

definition get_data :: "nat \<Rightarrow> bed \<Rightarrow> field option" where
  "get_data N r = (if N < length r then Some (r ! N) else None)"

text \<open>
  What a call can do besides returning: throw one of the two exceptions of
  \<^verbatim>\<open>std::stoi\<close> (the object it was mutating is given as it stands when the
  exception leaves), or run into behaviour the language leaves undefined
  (\<^verbatim>\<open>pop_back\<close> on an empty string, \<^verbatim>\<open>operator[]\<close> past the end of a vector),
  about which nothing further is said.
\<close>

datatype exn = Invalid_argument | Out_of_range

datatype 'a outcome = Returns 'a | Throws exn 'a | Undefined

abbreviation TAB :: char where "TAB \<equiv> CHR 0x09"
abbreviation NL :: char where "NL \<equiv> CHR 0x0A"

subsection \<open>Library functions the code calls\<close>

text \<open>\<^verbatim>\<open>isspace\<close> and \<^verbatim>\<open>isdigit\<close> of the C locale.\<close>

definition isspace :: "char \<Rightarrow> bool" where
  "isspace c = (c = CHR 0x20 \<or> (9 \<le> (of_char c :: nat) \<and> (of_char c :: nat) \<le> 13))"

definition isdigit :: "char \<Rightarrow> bool" where
  "isdigit c = (48 \<le> (of_char c :: nat) \<and> (of_char c :: nat) \<le> 57)"

definition digit_val :: "char \<Rightarrow> int" where
  "digit_val c = of_char c - 48"

definition dec_value :: "string \<Rightarrow> int" where
  "dec_value ds = foldl (\<lambda>a c. 10 * a + digit_val c) 0 ds"

text \<open>
  \<^verbatim>\<open>std::stoi(str)\<close> (base 10): \<^verbatim>\<open>strtol\<close> skips leading white space, takes one
  optional sign and the longest run of decimal digits, and ignores what follows.
  No digit: \<^verbatim>\<open>std::invalid_argument\<close>. A value outside \<^verbatim>\<open>int\<close>:
  \<^verbatim>\<open>std::out_of_range\<close>.
\<close>

definition stoi :: "string \<Rightarrow> exn + 32 word" where
  "stoi str =
     (let t = dropWhile isspace str;
          neg = (t \<noteq> [] \<and> hd t = CHR ''-'');
          u = (if t \<noteq> [] \<and> (hd t = CHR ''-'' \<or> hd t = CHR ''+'') then tl t else t);
          ds = takeWhile isdigit u
      in if ds = [] then Inl Invalid_argument
         else let v = (if neg then - dec_value ds else dec_value ds)
              in if v < - (2 ^ 31) \<or> 2 ^ 31 - 1 < v then Inl Out_of_range
                 else Inr (word_of_int v))"

text \<open>
  \<^verbatim>\<open>boost::lexical_cast<std::string>\<close> (through \<^verbatim>\<open>boost::convert\<close>), at the three
  element types: an \<^verbatim>\<open>int32_t\<close> in decimal with a leading \<^verbatim>\<open>-\<close> when negative, a
  string as it is, a \<^verbatim>\<open>char\<close> as the string of that one character.
\<close>

definition digit_char :: "int \<Rightarrow> char" where
  "digit_char d = char_of (48 + d)"

function dec_digits :: "int \<Rightarrow> string" where
  "dec_digits n = (if n < 10 then [digit_char n]
                   else dec_digits (n div 10) @ [digit_char (n mod 10)])"
  by pat_completeness auto
termination
  by (relation "measure nat") auto

declare dec_digits.simps [simp del]

definition int_to_string :: "32 word \<Rightarrow> string" where
  "int_to_string w = (if sint w < 0 then CHR ''-'' # dec_digits (- sint w)
                      else dec_digits (sint w))"

fun lexical_cast :: "field \<Rightarrow> string" where
  "lexical_cast (FInt w) = int_to_string w"
| "lexical_cast (FText s) = s"
| "lexical_cast (FChar c) = [c]"

text \<open>
  \<^verbatim>\<open>boost::split(v, in, boost::is_any_of("\t"))\<close>, token compression off: the
  tokens between the tab characters, the empty ones too; a line with \<open>n\<close> tabs gives
  \<open>n + 1\<close> tokens.
\<close>

fun boost_split :: "string \<Rightarrow> string list" where
  "boost_split [] = [[]]"
| "boost_split (c # cs) =
     (if c = TAB then [] # boost_split cs
      else (c # hd (boost_split cs)) # tl (boost_split cs))"

text \<open>
  An input stream: the characters not read yet and the three state bits.
\<close>

record istream =
  buf :: string
  eofbit :: bool
  failbit :: bool
  badbit :: bool

text \<open>
  An output stream: the characters written so far, whether the stream is good
  (\<^verbatim>\<open>rdstate() == goodbit\<close>), and what formats an insertion: the field width, the
  fill character and whether the adjustment is to the left. The buffer takes every
  character, and the exception mask is the empty one a stream starts with.
\<close>

record ostream =
  out :: string
  os_good :: bool
  width :: nat
  fill :: char
  adjust_left :: bool

definition good :: "istream \<Rightarrow> bool" where
  "good s = (\<not> eofbit s \<and> \<not> failbit s \<and> \<not> badbit s)"

text \<open>
  \<^verbatim>\<open>std::getline(rhs, in)\<close>: on a stream that is not good, sets \<^verbatim>\<open>failbit\<close> and
  reads nothing. Otherwise takes the characters up to the next newline, which is
  read and dropped; reaching the end sets \<^verbatim>\<open>eofbit\<close>, and when not even a
  newline was read, \<^verbatim>\<open>failbit\<close> too. The second component is the line, when the
  stream converts to true afterwards.
\<close>

definition getline :: "istream \<Rightarrow> istream \<times> string option" where
  "getline s =
     (if \<not> good s then (s\<lparr>failbit := True\<rparr>, None)
      else let l = takeWhile (\<lambda>c. c \<noteq> NL) (buf s);
               r = dropWhile (\<lambda>c. c \<noteq> NL) (buf s)
           in if r \<noteq> [] then (s\<lparr>buf := tl r\<rparr>, Some l)
              else if l = [] then (s\<lparr>buf := [], eofbit := True, failbit := True\<rparr>, None)
              else (s\<lparr>buf := [], eofbit := True\<rparr>, Some l))"

text \<open>
  \<^verbatim>\<open>rhs << s\<close> for a \<^verbatim>\<open>std::string\<close>, a formatted insertion: a stream that is
  not good takes nothing and stays as it is (which bit it then has is not kept: it
  is not good before and after). A good stream takes \<open>s\<close>, filled up to the field
  width with the fill character, after \<open>s\<close> when the adjustment is to the left and
  before it otherwise, and the width goes back to 0.
\<close>

definition ostream_insert :: "ostream \<Rightarrow> string \<Rightarrow> ostream" where
  "ostream_insert rhs s =
     (if \<not> os_good rhs then rhs
      else let pad = replicate (width rhs - length s) (fill rhs);
               t = (if adjust_left rhs then s @ pad else pad @ s)
           in rhs\<lparr>out := out rhs @ t, width := 0\<rparr>)"

text \<open>\<^verbatim>\<open>s[0]\<close> on a \<^verbatim>\<open>std::string\<close>: at \<^verbatim>\<open>size()\<close> it is the null character.\<close>

definition string_at0 :: "string \<Rightarrow> char" where
  "string_at0 s = (case s of [] \<Rightarrow> CHR 0x00 | c # _ \<Rightarrow> c)"

subsection \<open>Formatting\<close>

text \<open>
  \<^verbatim>\<open>get_string<N>(rhs)\<close>: appends element \<open>N\<close> and a tab and goes on with
  \<open>N + 1\<close>; past the last element it drops the last character of \<open>rhs\<close>.
\<close>

function get_string :: "nat \<Rightarrow> bed \<Rightarrow> string \<Rightarrow> string outcome" where
  "get_string N data rhs =
     (if N \<ge> length data
      then (if rhs = [] then Undefined else Returns (butlast rhs))
      else get_string (N + 1) data (rhs @ (lexical_cast (data ! N) @ [TAB])))"
  by pat_completeness auto
termination
  by (relation "measure (\<lambda>(N, data, rhs). length data - N)") auto

declare get_string.simps [simp del]

definition to_string :: "bed \<Rightarrow> string outcome" where
  "to_string data = get_string 0 data []"

text \<open>\<^verbatim>\<open>operator<<\<close>: writes \<^verbatim>\<open>i.to_string()\<close>.\<close>

definition write_bed :: "ostream \<Rightarrow> bed \<Rightarrow> ostream outcome" where
  "write_bed rhs i = (case to_string i of
                        Returns t \<Rightarrow> Returns (ostream_insert rhs t)
                      | Throws e t \<Rightarrow> Throws e rhs
                      | Undefined \<Rightarrow> Undefined)"

text \<open>
  \<^verbatim>\<open>dump(rhs, c)\<close>: the loop collects \<^verbatim>\<open>t + '\n'\<close> of every element in \<open>s\<close>,
  which is inserted once at the end, by \<^verbatim>\<open>rhs << s\<close>.
\<close>

fun dump_loop :: "bed list \<Rightarrow> string \<Rightarrow> string outcome" where
  "dump_loop [] s = Returns s"
| "dump_loop (i # c) s =
     (case to_string i of
        Returns t \<Rightarrow> dump_loop c (s @ (t @ [NL]))
      | Throws e t \<Rightarrow> Throws e s
      | Undefined \<Rightarrow> Undefined)"

definition dump :: "ostream \<Rightarrow> bed list \<Rightarrow> ostream outcome" where
  "dump rhs c = (case dump_loop c [] of
                   Returns s \<Rightarrow> Returns (ostream_insert rhs s)
                 | Throws e s \<Rightarrow> Throws e rhs
                 | Undefined \<Rightarrow> Undefined)"

subsection \<open>Parsing\<close>

text \<open>
  \<^verbatim>\<open>to_tuple<N>(rhs, i)\<close>: stops at the size of the tuple; otherwise reads
  \<^verbatim>\<open>rhs[N]\<close> (unchecked), converts it by the type of element \<open>N\<close>, assigns it
  and goes on with \<open>N + 1\<close>. An exception of \<^verbatim>\<open>stoi\<close> leaves the elements
  assigned so far in place.
\<close>

function to_tuple :: "nat \<Rightarrow> string list \<Rightarrow> bed \<Rightarrow> bed outcome" where
  "to_tuple N rhs i =
     (if N \<ge> length i then Returns i
      else if N \<ge> length rhs then Undefined
      else (case i ! N of
              FInt _ \<Rightarrow> (case stoi (rhs ! N) of
                           Inl e \<Rightarrow> Throws e i
                         | Inr v \<Rightarrow> to_tuple (N + 1) rhs (i[N := FInt v]))
            | FText _ \<Rightarrow> to_tuple (N + 1) rhs (i[N := FText (rhs ! N)])
            | FChar _ \<Rightarrow> to_tuple (N + 1) rhs (i[N := FChar (string_at0 (rhs ! N))])))"
  by pat_completeness auto
termination
  by (relation "measure (\<lambda>(N, rhs, i). length i - N)") auto

declare to_tuple.simps [simp del]

text \<open>
  \<^verbatim>\<open>get_obj(rhs, i)\<close>: one \<^verbatim>\<open>getline\<close>; when it gives a line, the line is split
  at the tabs and bound to \<open>i\<close>; otherwise \<open>i\<close> is not touched.
\<close>

definition get_obj :: "istream \<Rightarrow> bed \<Rightarrow> (istream \<times> bed) outcome" where
  "get_obj rhs i =
     (case getline rhs of
        (rhs', Some l) \<Rightarrow>
          (case to_tuple 0 (boost_split l) i of
             Returns i' \<Rightarrow> Returns (rhs', i')
           | Throws e i' \<Rightarrow> Throws e (rhs', i')
           | Undefined \<Rightarrow> Undefined)
      | (rhs', None) \<Rightarrow> Returns (rhs', i))"

subsection \<open>Ordering\<close>

text \<open>
  \<^verbatim>\<open>operator<\<close> is \<^verbatim>\<open>operator<\<close> of \<^verbatim>\<open>std::tuple\<close>: at each position, less if
  the left element is less, otherwise on to the next position unless the right
  element is less. Strings compare as sequences of unsigned bytes, a prefix first;
  \<^verbatim>\<open>int32_t\<close> as signed numbers; \<^verbatim>\<open>char\<close> as numbers, signed or unsigned by
  the platform (the parameter \<open>sg\<close>).
\<close>

fun string_less :: "string \<Rightarrow> string \<Rightarrow> bool" where
  "string_less [] [] = False"
| "string_less [] (b # bs) = True"
| "string_less (a # as) [] = False"
| "string_less (a # as) (b # bs) =
     (if (of_char a :: nat) < of_char b then True
      else if (of_char b :: nat) < of_char a then False
      else string_less as bs)"

definition char_num :: "bool \<Rightarrow> char \<Rightarrow> int" where
  "char_num sg c = (if sg \<and> 128 \<le> (of_char c :: int) then of_char c - 256 else of_char c)"

fun field_less :: "bool \<Rightarrow> field \<Rightarrow> field \<Rightarrow> bool" where
  "field_less sg (FInt a) (FInt b) = (sint a < sint b)"
| "field_less sg (FText a) (FText b) = string_less a b"
| "field_less sg (FChar a) (FChar b) = (char_num sg a < char_num sg b)"
| "field_less sg _ _ = False"

fun tuple_less :: "bool \<Rightarrow> bed \<Rightarrow> bed \<Rightarrow> bool" where
  "tuple_less sg (a # as) (b # bs) =
     (field_less sg a b \<or> (\<not> field_less sg b a \<and> tuple_less sg as bs))"
| "tuple_less sg _ _ = False"

definition bed_less :: "bool \<Rightarrow> bed \<Rightarrow> bed \<Rightarrow> bool" where
  "bed_less sg b1 b2 = tuple_less sg b1 b2"

subsection \<open>Notions used in the statements\<close>

text \<open>
  The text \<^verbatim>\<open>get_string\<close> accumulates before it drops the last character: every
  token followed by a tab.
\<close>

definition row :: "string list \<Rightarrow> string" where
  "row toks = concat (map (\<lambda>t. t @ [TAB]) toks)"

text \<open>
  The text \<^verbatim>\<open>to_string\<close> returns for a record with at least one field (lemma
  \<open>to_string_eq\<close>).
\<close>

definition format_text :: "bed \<Rightarrow> string" where
  "format_text r = butlast (row (map lexical_cast r))"

text \<open>
  The conversion \<^verbatim>\<open>to_tuple\<close> applies at one position, by the type of the element
  it overwrites (lemma \<open>to_tuple_step\<close> relates the two).
\<close>

fun bind_tok :: "field \<Rightarrow> string \<Rightarrow> exn + field" where
  "bind_tok (FInt _) t = (case stoi t of Inl e \<Rightarrow> Inl e | Inr v \<Rightarrow> Inr (FInt v))"
| "bind_tok (FText _) t = Inr (FText t)"
| "bind_tok (FChar _) t = Inr (FChar (string_at0 t))"

text \<open>
  A valid decimal integer representation, in the words of the specification: an
  optional sign and then decimal digits, at least one, and nothing else.
\<close>

definition valid_decimal :: "string \<Rightarrow> bool" where
  "valid_decimal p =
     (let d = (if p \<noteq> [] \<and> (hd p = CHR ''-'' \<or> hd p = CHR ''+'') then tl p else p)
      in d \<noteq> [] \<and> list_all isdigit d)"

text \<open>
  A field whose text has no tab character in it: any number, a string without a
  tab, a character other than the tab.
\<close>

fun tab_free :: "field \<Rightarrow> bool" where
  "tab_free (FInt _) = True"
| "tab_free (FText s) = (TAB \<notin> set s)"
| "tab_free (FChar c) = (c \<noteq> TAB)"

section \<open>Properties\<close>

subsection \<open>Decimal digits and \<^verbatim>\<open>stoi\<close>\<close>

lemma of_char_digit_char: "0 \<le> d \<Longrightarrow> d < 10 \<Longrightarrow> (of_char (digit_char d) :: int) = 48 + d"
  by (simp add: digit_char_def of_char_of)

lemma of_char_digit_char_nat: "0 \<le> d \<Longrightarrow> d < 10 \<Longrightarrow> (of_char (digit_char d) :: nat) = nat (48 + d)"
proof -
  assume a: "0 \<le> d" "d < 10"
  have "int (of_char (digit_char d) :: nat) = (of_char (digit_char d) :: int)"
    by (simp add: of_char_def)
  then show ?thesis using of_char_digit_char [OF a] by linarith
qed

lemma isdigit_digit_char: "0 \<le> d \<Longrightarrow> d < 10 \<Longrightarrow> isdigit (digit_char d)"
  by (simp add: isdigit_def of_char_digit_char_nat) arith

lemma digit_val_digit_char: "0 \<le> d \<Longrightarrow> d < 10 \<Longrightarrow> digit_val (digit_char d) = d"
  by (simp add: digit_val_def of_char_digit_char)

lemma dec_value_snoc: "dec_value (ds @ [c]) = 10 * dec_value ds + digit_val c"
  by (simp add: dec_value_def)

lemma dec_digits_props:
  "0 \<le> n \<Longrightarrow> dec_digits n \<noteq> [] \<and> (\<forall>c \<in> set (dec_digits n). isdigit c) \<and> dec_value (dec_digits n) = n"
proof (induction n rule: dec_digits.induct)
  case (1 n)
  show ?case
  proof (cases "n < 10")
    case True
    with "1.prems" show ?thesis
      by (simp add: dec_digits.simps [of n] isdigit_digit_char dec_value_def digit_val_digit_char)
  next
    case False
    then have ih: "dec_digits (n div 10) \<noteq> [] \<and> (\<forall>c \<in> set (dec_digits (n div 10)). isdigit c)
        \<and> dec_value (dec_digits (n div 10)) = n div 10"
      using "1.IH" "1.prems" by simp
    have m: "0 \<le> n mod 10" "n mod 10 < 10" by simp_all
    from False ih m show ?thesis
      by (simp add: dec_digits.simps [of n] isdigit_digit_char dec_value_snoc digit_val_digit_char)
  qed
qed

lemma isdigit_not_space: "isdigit c \<Longrightarrow> \<not> isspace c"
  by (auto simp: isdigit_def isspace_def)

lemma isdigit_not_sign: "isdigit c \<Longrightarrow> c \<noteq> CHR ''-'' \<and> c \<noteq> CHR ''+''"
  by (auto simp: isdigit_def)

lemma isdigit_not_tab: "isdigit c \<Longrightarrow> c \<noteq> TAB"
  by (auto simp: isdigit_def)

lemma takeWhile_all: "\<forall>c \<in> set ds. P c \<Longrightarrow> takeWhile P ds = ds"
  by (induction ds) auto

lemma stoi_digits:
  assumes "ds \<noteq> []" "\<forall>c \<in> set ds. isdigit c" "- (2 ^ 31) \<le> dec_value ds" "dec_value ds \<le> 2 ^ 31 - 1"
  shows "stoi ds = Inr (word_of_int (dec_value ds))"
proof -
  obtain c cs where ds: "ds = c # cs" using assms(1) by (cases ds) auto
  have c: "isdigit c" using assms(2) ds by simp
  have d: "dropWhile isspace ds = ds" using c isdigit_not_space ds by simp
  have h: "hd ds \<noteq> CHR ''-''" "hd ds \<noteq> CHR ''+''" using isdigit_not_sign [OF c] ds by simp_all
  have t: "takeWhile isdigit ds = ds" using assms(2) by (rule takeWhile_all)
  show ?thesis using assms(1,3,4) h by (simp add: stoi_def d t Let_def)
qed

lemma stoi_minus_digits:
  assumes "ds \<noteq> []" "\<forall>c \<in> set ds. isdigit c" "- (2 ^ 31) \<le> - dec_value ds" "- dec_value ds \<le> 2 ^ 31 - 1"
  shows "stoi (CHR ''-'' # ds) = Inr (word_of_int (- dec_value ds))"
proof -
  have d: "\<not> isspace CHR ''-''" by (simp add: isspace_def)
  have t: "takeWhile isdigit ds = ds" using assms(2) by (rule takeWhile_all)
  show ?thesis using assms(1,3,4) by (simp add: stoi_def d t Let_def)
qed

lemma sint_range32: "- (2 ^ 31) \<le> sint (w :: 32 word) \<and> sint w \<le> 2 ^ 31 - 1"
  using sint_ge [of w] sint_lt [of w] by simp

lemma stoi_int_to_string: "stoi (int_to_string w) = Inr w"
proof (cases "sint w < 0")
  case True
  then have n: "0 \<le> - sint w" by simp
  note p = dec_digits_props [OF n]
  have "stoi (CHR ''-'' # dec_digits (- sint w)) = Inr (word_of_int (- dec_value (dec_digits (- sint w))))"
    using p sint_range32 [of w] by (intro stoi_minus_digits) auto
  then show ?thesis using True p by (simp add: int_to_string_def)
next
  case False
  then have n: "0 \<le> sint w" by simp
  note p = dec_digits_props [OF n]
  have "stoi (dec_digits (sint w)) = Inr (word_of_int (dec_value (dec_digits (sint w))))"
    using p sint_range32 [of w] by (intro stoi_digits) auto
  then show ?thesis using False p by (simp add: int_to_string_def)
qed

lemma int_to_string_no_tab: "TAB \<notin> set (int_to_string w)"
proof (cases "sint w < 0")
  case True
  then have n: "0 \<le> - sint w" by simp
  from dec_digits_props [OF n] isdigit_not_tab True show ?thesis
    by (auto simp: int_to_string_def)
next
  case False
  then have n: "0 \<le> sint w" by simp
  from dec_digits_props [OF n] isdigit_not_tab False show ?thesis
    by (auto simp: int_to_string_def)
qed

lemma boost_split_not_Nil: "boost_split s \<noteq> []"
  by (induction s) auto

lemma boost_split_no_tab: "TAB \<notin> set t \<Longrightarrow> boost_split t = [t]"
  by (induction t) auto

lemma boost_split_append: "TAB \<notin> set t \<Longrightarrow> boost_split (t @ TAB # rest) = t # boost_split rest"
  by (induction t) auto

lemma length_boost_split: "length (boost_split s) = Suc (length (filter (\<lambda>c. c = TAB) s))"
  by (induction s) (auto simp: boost_split_not_Nil)

subsection \<open>Formatting and splitting\<close>

lemma get_string_eq:
  "get_string N data rhs =
     (let s = rhs @ row (map lexical_cast (drop N data))
      in if s = [] then Undefined else Returns (butlast s))"
proof (induction N data rhs rule: get_string.induct)
  case (1 N data rhs)
  show ?case
  proof (cases "N \<ge> length data")
    case True
    then show ?thesis by (simp add: get_string.simps [of N] row_def)
  next
    case False
    then have d: "drop N data = data ! N # drop (Suc N) data"
      by (simp add: Cons_nth_drop_Suc)
    from False "1.IH" show ?thesis
      by (simp add: get_string.simps [of N] d row_def Let_def)
  qed
qed

lemma to_string_eq:
  "to_string data = (if data = [] then Undefined else Returns (butlast (row (map lexical_cast data))))"
  by (cases data) (simp_all add: to_string_def get_string_eq row_def Let_def)

lemma split_row:
  "toks \<noteq> [] \<Longrightarrow> \<forall>t \<in> set toks. TAB \<notin> set t \<Longrightarrow> boost_split (butlast (row toks)) = toks"
proof (induction toks)
  case Nil
  then show ?case by simp
next
  case (Cons t ts)
  show ?case
  proof (cases ts)
    case Nil
    with Cons.prems show ?thesis by (simp add: row_def boost_split_no_tab)
  next
    case (Cons t' ts')
    then have ne: "row ts \<noteq> []" by (simp add: row_def)
    have "butlast (row (t # ts)) = t @ TAB # butlast (row ts)"
      using ne by (simp add: row_def butlast_append)
    moreover have "boost_split (butlast (row ts)) = ts"
      using Cons.IH Cons.prems Cons by simp
    ultimately show ?thesis using Cons.prems by (simp add: boost_split_append)
  qed
qed

lemma row_last: "toks \<noteq> [] \<Longrightarrow> butlast (row toks) = row (butlast toks) @ last toks"
  by (induction toks) (auto simp: row_def butlast_append)

subsection \<open>The walk of \<^verbatim>\<open>to_tuple\<close> over the positions\<close>

lemma to_tuple_end: "length i \<le> N \<Longrightarrow> to_tuple N rhs i = Returns i"
  by (simp add: to_tuple.simps [of N])

lemma to_tuple_short: "N < length i \<Longrightarrow> length rhs \<le> N \<Longrightarrow> to_tuple N rhs i = Undefined"
  by (simp add: to_tuple.simps [of N])

lemma to_tuple_step:
  "N < length i \<Longrightarrow> N < length rhs \<Longrightarrow>
   to_tuple N rhs i = (case bind_tok (i ! N) (rhs ! N) of
                         Inl e \<Rightarrow> Throws e i
                       | Inr v \<Rightarrow> to_tuple (Suc N) rhs (i[N := v]))"
  by (cases "i ! N") (simp_all add: to_tuple.simps [of N] split: sum.splits)

lemma to_tuple_first_failure:
  assumes "k < length i" "k < length rhs" "N \<le> k"
    and "\<forall>j. N \<le> j \<and> j < k \<longrightarrow> bind_tok (i ! j) (rhs ! j) = Inr (v j)"
    and "bind_tok (i ! k) (rhs ! k) = Inl e"
  shows "to_tuple N rhs i = Throws e (take N i @ map v [N..<k] @ drop k i)"
  using assms
proof (induction "k - N" arbitrary: N i)
  case 0
  then have "N = k" by simp
  with 0 show ?case by (simp add: to_tuple_step)
next
  case (Suc d)
  then have lt: "N < k" by simp
  let ?i = "i[N := v N]"
  have b: "bind_tok (i ! N) (rhs ! N) = Inr (v N)" using Suc.prems(4) lt by simp
  have step: "to_tuple N rhs i = to_tuple (Suc N) rhs ?i"
    using Suc.prems(1,2) lt b by (simp add: to_tuple_step)
  have "to_tuple (Suc N) rhs ?i = Throws e (take (Suc N) ?i @ map v [Suc N..<k] @ drop k ?i)"
  proof (rule Suc.hyps(1))
    show "d = k - Suc N" using Suc.hyps(2) by simp
    show "k < length ?i" using Suc.prems(1) by simp
    show "k < length rhs" by (rule Suc.prems(2))
    show "Suc N \<le> k" using lt by simp
    show "\<forall>j. Suc N \<le> j \<and> j < k \<longrightarrow> bind_tok (?i ! j) (rhs ! j) = Inr (v j)"
      using Suc.prems(4) by simp
    show "bind_tok (?i ! k) (rhs ! k) = Inl e" using Suc.prems(5) lt by simp
  qed
  moreover have "take (Suc N) ?i = take N i @ [v N]"
    using Suc.prems(1) lt by (simp add: take_Suc_conv_app_nth)
  moreover have "drop k ?i = drop k i" using lt by simp
  moreover have "[N..<k] = N # [Suc N..<k]" using lt by (simp add: upt_conv_Cons)
  ultimately show ?case using step by simp
qed

lemma to_tuple_all_bound:
  assumes "length i \<le> length rhs" "N \<le> length i"
    and "\<forall>j. N \<le> j \<and> j < length i \<longrightarrow> bind_tok (i ! j) (rhs ! j) = Inr (v j)"
  shows "to_tuple N rhs i = Returns (take N i @ map v [N..<length i])"
  using assms
proof (induction "length i - N" arbitrary: N i)
  case 0
  then show ?case by (simp add: to_tuple_end)
next
  case (Suc d)
  then have lt: "N < length i" by simp
  let ?i = "i[N := v N]"
  have b: "bind_tok (i ! N) (rhs ! N) = Inr (v N)" using Suc.prems(3) lt by simp
  have step: "to_tuple N rhs i = to_tuple (Suc N) rhs ?i"
    using Suc.prems(1) lt b by (simp add: to_tuple_step)
  have "to_tuple (Suc N) rhs ?i = Returns (take (Suc N) ?i @ map v [Suc N..<length ?i])"
  proof (rule Suc.hyps(1))
    show "d = length ?i - Suc N" using Suc.hyps(2) by simp
    show "length ?i \<le> length rhs" using Suc.prems(1) by simp
    show "Suc N \<le> length ?i" using lt by simp
    show "\<forall>j. Suc N \<le> j \<and> j < length ?i \<longrightarrow> bind_tok (?i ! j) (rhs ! j) = Inr (v j)"
      using Suc.prems(3) by simp
  qed
  moreover have "take (Suc N) ?i = take N i @ [v N]"
    using lt by (simp add: take_Suc_conv_app_nth)
  moreover have "[N..<length i] = N # [Suc N..<length i]" using lt by (simp add: upt_conv_Cons)
  ultimately show ?case using step by simp
qed

lemma to_tuple_prefix:
  "length i \<le> length toks \<Longrightarrow> to_tuple N (toks @ extra) i = to_tuple N toks i"
proof (induction N toks i rule: to_tuple.induct)
  case (1 N rhs i)
  show ?case
  proof (cases "N < length i")
    case False
    then show ?thesis by (simp add: to_tuple_end)
  next
    case True
    with "1.prems" have r: "N < length rhs" by simp
    have nth: "(rhs @ extra) ! N = rhs ! N" using r by (simp add: nth_append)
    show ?thesis
    proof (cases "i ! N")
      case (FInt w)
      show ?thesis
      proof (cases "stoi (rhs ! N)")
        case (Inl e)
        with True r FInt nth show ?thesis
          by (simp add: to_tuple.simps [of N])
      next
        case (Inr x)
        with True r FInt nth "1.IH"(1) [of w x] "1.prems" show ?thesis
          by (simp add: to_tuple.simps [of N])
      qed
    next
      case (FText t)
      with True r nth "1.IH"(2) [of t] "1.prems" show ?thesis
        by (simp add: to_tuple.simps [of N])
    next
      case (FChar c)
      with True r nth "1.IH"(3) [of c] "1.prems" show ?thesis
        by (simp add: to_tuple.simps [of N])
    qed
  qed
qed

lemma to_tuple_defined:
  "length i \<le> length rhs \<Longrightarrow> to_tuple N rhs i \<noteq> Undefined"
proof (induction N rhs i rule: to_tuple.induct)
  case (1 N rhs i)
  show ?case
  proof (cases "N < length i")
    case False
    then show ?thesis by (simp add: to_tuple_end)
  next
    case True
    with "1.prems" have r: "N < length rhs" by simp
    show ?thesis
    proof (cases "i ! N")
      case (FInt w)
      show ?thesis
      proof (cases "stoi (rhs ! N)")
        case (Inl e)
        with True r FInt show ?thesis by (simp add: to_tuple.simps [of N])
      next
        case (Inr x)
        with True r FInt "1.IH"(1) [of w x] "1.prems" show ?thesis
          by (simp add: to_tuple.simps [of N])
      qed
    next
      case (FText t)
      with True r "1.IH"(2) [of t] "1.prems" show ?thesis
        by (simp add: to_tuple.simps [of N])
    next
      case (FChar c)
      with True r "1.IH"(3) [of c] "1.prems" show ?thesis
        by (simp add: to_tuple.simps [of N])
    qed
  qed
qed

subsection \<open>The loop of \<^verbatim>\<open>dump\<close>\<close>

lemma dump_loop_eq:
  "\<forall>r \<in> set c. to_string r = Returns (fmt r) \<Longrightarrow>
   dump_loop c s = Returns (s @ concat (map (\<lambda>r. fmt r @ [NL]) c))"
  by (induction c arbitrary: s) simp_all

subsection \<open>Parsing what was formatted\<close>

lemma lexical_cast_no_tab: "tab_free f \<Longrightarrow> TAB \<notin> set (lexical_cast f)"
  by (cases f) (simp_all add: int_to_string_no_tab)

lemma bind_tok_lexical_cast: "type_of a = type_of f \<Longrightarrow> bind_tok a (lexical_cast f) = Inr f"
  by (cases a; cases f) (simp_all add: stoi_int_to_string string_at0_def)

lemma split_to_string:
  assumes "r \<noteq> []" "list_all tab_free r"
  shows "boost_split (butlast (row (map lexical_cast r))) = map lexical_cast r"
proof (rule split_row)
  show "map lexical_cast r \<noteq> []" using assms(1) by simp
  show "\<forall>t \<in> set (map lexical_cast r). TAB \<notin> set t"
    using assms(2) by (auto simp: list_all_iff lexical_cast_no_tab)
qed

lemma to_tuple_tokens_of:
  assumes "schema_of i = schema_of r"
  shows "to_tuple 0 (map lexical_cast r) i = Returns r"
proof -
  have len: "length i = length r"
    using assms by (metis schema_of_def length_map)
  have ty: "\<forall>j < length r. type_of (i ! j) = type_of (r ! j)"
  proof (intro allI impI)
    fix j assume j: "j < length r"
    have "schema_of i ! j = schema_of r ! j" using assms by simp
    then show "type_of (i ! j) = type_of (r ! j)" using j len by (simp add: schema_of_def)
  qed
  have "to_tuple 0 (map lexical_cast r) i = Returns (take 0 i @ map (\<lambda>j. r ! j) [0..<length i])"
  proof (rule to_tuple_all_bound)
    show "length i \<le> length (map lexical_cast r)" using len by simp
    show "0 \<le> length i" by simp
    show "\<forall>j. 0 \<le> j \<and> j < length i \<longrightarrow> bind_tok (i ! j) (map lexical_cast r ! j) = Inr (r ! j)"
      using ty len by (simp add: bind_tok_lexical_cast)
  qed
  then show ?thesis using len by (simp add: map_nth)
qed

subsection \<open>Tokens that \<^verbatim>\<open>stoi\<close> accepts\<close>

lemma stoi_leading_integer:
  assumes "stoi t \<noteq> Inl Invalid_argument"
  shows "\<exists>ws p rest. t = ws @ p @ rest \<and> list_all isspace ws \<and> valid_decimal p"
proof -
  let ?ws = "takeWhile isspace t"
  let ?u = "dropWhile isspace t"
  have ws: "list_all isspace ?ws"
    by (simp add: list_all_iff) (metis set_takeWhileD)
  have t: "t = ?ws @ ?u" by simp
  show ?thesis
  proof (cases "?u \<noteq> [] \<and> (hd ?u = CHR ''-'' \<or> hd ?u = CHR ''+'')")
    case True
    let ?ds = "takeWhile isdigit (tl ?u)"
    from assms True have ne: "?ds \<noteq> []"
      by (auto simp: stoi_def Let_def split: if_splits)
    have dg: "list_all isdigit ?ds"
      by (simp add: list_all_iff) (metis set_takeWhileD)
    have u: "?u = hd ?u # ?ds @ dropWhile isdigit (tl ?u)"
      using True by simp
    have "valid_decimal (hd ?u # ?ds)"
      using True ne dg by (auto simp: valid_decimal_def)
    moreover have "t = ?ws @ (hd ?u # ?ds) @ dropWhile isdigit (tl ?u)"
      using t u by (metis append_Cons)
    ultimately show ?thesis using ws by blast
  next
    case False
    let ?ds = "takeWhile isdigit ?u"
    from assms False have ne: "?ds \<noteq> []"
      by (auto simp: stoi_def Let_def split: if_splits)
    have dg: "list_all isdigit ?ds"
      by (simp add: list_all_iff) (metis set_takeWhileD)
    have "isdigit (hd ?ds)" using ne dg by (cases ?ds) auto
    then have "hd ?ds \<noteq> CHR ''-'' \<and> hd ?ds \<noteq> CHR ''+''" by (rule isdigit_not_sign)
    then have "valid_decimal ?ds"
      using ne dg by (auto simp: valid_decimal_def)
    moreover have "t = ?ws @ ?ds @ dropWhile isdigit ?u" by simp
    ultimately show ?thesis using ws by blast
  qed
qed

lemma stoi_100: "stoi ''100'' = Inr 100"
  by (simp add: stoi_def isspace_def isdigit_def dec_value_def digit_val_def)

lemma stoi_200: "stoi ''200'' = Inr 200"
  by (simp add: stoi_def isspace_def isdigit_def dec_value_def digit_val_def)

subsection \<open>The order\<close>

lemma string_less_irrefl: "\<not> string_less a a"
  by (induction a) auto

lemma string_less_total: "string_less a b \<or> a = b \<or> string_less b a"
proof (induction a b rule: string_less.induct)
  case (4 a as b bs)
  then show ?case
    by (cases "(of_char a :: nat) < of_char b"; cases "(of_char b :: nat) < of_char a") auto
qed auto

lemma string_less_asym: "string_less a b \<Longrightarrow> \<not> string_less b a"
  by (induction a b rule: string_less.induct) (auto split: if_splits)

lemma string_less_trans: "string_less a b \<Longrightarrow> string_less b c \<Longrightarrow> string_less a c"
proof (induction a b arbitrary: c rule: string_less.induct)
  case (4 a as b bs)
  then show ?case
    by (cases c) (auto split: if_splits)
qed (auto elim: string_less.elims)

lemma char_num_inj: "char_num sg a = char_num sg b \<Longrightarrow> a = b"
proof -
  assume e: "char_num sg a = char_num sg b"
  have ra: "0 \<le> (of_char a :: int) \<and> (of_char a :: int) < 256"
    by (simp add: of_char_def)
  have rb: "0 \<le> (of_char b :: int) \<and> (of_char b :: int) < 256"
    by (simp add: of_char_def)
  from e ra rb have "(of_char a :: int) = of_char b"
    by (auto simp: char_num_def split: if_splits)
  then show "a = b" by simp
qed

lemma sint_inj32: "sint (a :: 32 word) = sint b \<Longrightarrow> a = b"
proof -
  assume "sint a = sint b"
  then have "(word_of_int (sint a) :: 32 word) = word_of_int (sint b)" by simp
  then show "a = b" by simp
qed

lemma field_less_irrefl: "\<not> field_less sg a a"
  by (cases a) (simp_all add: string_less_irrefl)

lemma field_less_asym: "field_less sg a b \<Longrightarrow> \<not> field_less sg b a"
  by (cases a; cases b) (auto dest: string_less_asym)

lemma field_less_trans: "field_less sg a b \<Longrightarrow> field_less sg b c \<Longrightarrow> field_less sg a c"
  by (cases a; cases b; cases c) (auto intro: string_less_trans)

lemma field_less_total: "type_of a = type_of b \<Longrightarrow> field_less sg a b \<or> a = b \<or> field_less sg b a"
proof (cases a; cases b)
  fix x y assume "a = FInt x" "b = FInt y"
  then show ?thesis using sint_inj32 [of x y] by auto
next
  fix x y assume "a = FText x" "b = FText y"
  then show ?thesis using string_less_total [of x y] by auto
next
  fix x y assume "a = FChar x" "b = FChar y"
  then show ?thesis using char_num_inj [of sg x y] by auto
qed auto

lemma schema_of_Cons:
  "schema_of (a # as) = schema_of bs' \<longleftrightarrow>
     (\<exists>b bs. bs' = b # bs \<and> type_of a = type_of b \<and> schema_of as = schema_of bs)"
  by (cases bs') (auto simp: schema_of_def)

lemma schema_of_Nil: "schema_of [] = schema_of bs \<longleftrightarrow> bs = []"
  by (auto simp: schema_of_def)

lemma tuple_less_irrefl: "\<not> tuple_less sg a a"
  by (induction a) (auto simp: field_less_irrefl)

lemma tuple_less_asym:
  "tuple_less sg a b \<Longrightarrow> \<not> tuple_less sg b a"
  by (induction sg a b rule: tuple_less.induct) (auto dest: field_less_asym)

lemma tuple_less_total:
  "schema_of a = schema_of b \<Longrightarrow> tuple_less sg a b \<or> a = b \<or> tuple_less sg b a"
proof (induction a arbitrary: b)
  case Nil
  then show ?case by (simp add: schema_of_Nil)
next
  case (Cons x xs)
  then obtain y ys where b: "b = y # ys" and ty: "type_of x = type_of y"
    and s: "schema_of xs = schema_of ys"
    by (auto simp: schema_of_Cons)
  from Cons.IH [OF s] field_less_total [OF ty, of sg] show ?case
    by (auto simp: b field_less_irrefl dest: field_less_asym)
qed

lemma tuple_less_trans:
  "tuple_less sg a b \<Longrightarrow> tuple_less sg b c \<Longrightarrow> schema_of a = schema_of b \<Longrightarrow>
   schema_of b = schema_of c \<Longrightarrow> tuple_less sg a c"
proof (induction a arbitrary: b c)
  case Nil
  then show ?case by simp
next
  case (Cons x xs)
  from Cons.prems(3) obtain y ys where b: "b = y # ys" and txy: "type_of x = type_of y"
    and sxy: "schema_of xs = schema_of ys"
    by (auto simp: schema_of_Cons)
  from Cons.prems(4) b obtain z zs where c: "c = z # zs" and tyz: "type_of y = type_of z"
    and syz: "schema_of ys = schema_of zs"
    by (auto simp: schema_of_Cons)
  have ab: "field_less sg x y \<or> (\<not> field_less sg y x \<and> tuple_less sg xs ys)"
    using Cons.prems(1) b by simp
  have bc: "field_less sg y z \<or> (\<not> field_less sg z y \<and> tuple_less sg ys zs)"
    using Cons.prems(2) b c by simp
  have exy: "\<not> field_less sg x y \<Longrightarrow> \<not> field_less sg y x \<Longrightarrow> x = y"
    using field_less_total [OF txy, of sg] by blast
  have eyz: "\<not> field_less sg y z \<Longrightarrow> \<not> field_less sg z y \<Longrightarrow> y = z"
    using field_less_total [OF tyz, of sg] by blast
  show ?case
  proof (cases "field_less sg x y")
    case True
    show ?thesis
    proof (cases "field_less sg y z")
      case True
      have "field_less sg x z" using \<open>field_less sg x y\<close> True by (rule field_less_trans)
      then show ?thesis by (simp add: c)
    next
      case False
      with bc have "y = z" using eyz by blast
      with True show ?thesis by (simp add: c)
    qed
  next
    case False
    with ab have xy: "x = y" and t1: "tuple_less sg xs ys" using exy by blast+
    show ?thesis
    proof (cases "field_less sg y z")
      case True
      with xy show ?thesis by (simp add: c)
    next
      case False
      with bc have yz: "y = z" and t2: "tuple_less sg ys zs" using eyz by blast+
      have "tuple_less sg xs zs" using Cons.IH [OF t1 t2 sxy syz] .
      with xy yz show ?thesis by (simp add: c field_less_irrefl)
    qed
  qed
qed

lemma tuple_less_lex:
  "schema_of a = schema_of b \<Longrightarrow>
   tuple_less sg a b \<longleftrightarrow> (\<exists>k<length a. (\<forall>j<k. a ! j = b ! j) \<and> field_less sg (a ! k) (b ! k))"
proof (induction a arbitrary: b)
  case Nil
  then show ?case by simp
next
  case (Cons x xs)
  then obtain y ys where b: "b = y # ys" and ty: "type_of x = type_of y"
    and s: "schema_of xs = schema_of ys"
    by (auto simp: schema_of_Cons)
  note ih = Cons.IH [OF s]
  have eq: "\<not> field_less sg x y \<Longrightarrow> \<not> field_less sg y x \<Longrightarrow> x = y"
    using field_less_total [OF ty, of sg] by blast
  show ?case
  proof
    assume "tuple_less sg (x # xs) b"
    then have "field_less sg x y \<or> (\<not> field_less sg y x \<and> tuple_less sg xs ys)"
      by (simp add: b)
    then show "\<exists>k<length (x # xs). (\<forall>j<k. (x # xs) ! j = b ! j) \<and> field_less sg ((x # xs) ! k) (b ! k)"
    proof
      assume "field_less sg x y"
      then have "0 < length (x # xs) \<and> (\<forall>j<0. (x # xs) ! j = b ! j) \<and> field_less sg ((x # xs) ! 0) (b ! 0)"
        by (simp add: b)
      then show ?thesis by blast
    next
      assume a: "\<not> field_less sg y x \<and> tuple_less sg xs ys"
      show ?thesis
      proof (cases "field_less sg x y")
        case True
        then have "0 < length (x # xs) \<and> (\<forall>j<0. (x # xs) ! j = b ! j) \<and> field_less sg ((x # xs) ! 0) (b ! 0)"
          by (simp add: b)
        then show ?thesis by blast
      next
        case False
        with a have xy: "x = y" using eq by blast
        from a ih obtain k where k: "k < length xs" "\<forall>j<k. xs ! j = ys ! j" "field_less sg (xs ! k) (ys ! k)"
          by blast
        have "Suc k < length (x # xs) \<and> (\<forall>j<Suc k. (x # xs) ! j = b ! j)
              \<and> field_less sg ((x # xs) ! Suc k) (b ! Suc k)"
          using k xy by (auto simp: b nth_Cons split: nat.splits)
        then show ?thesis by blast
      qed
    qed
  next
    assume "\<exists>k<length (x # xs). (\<forall>j<k. (x # xs) ! j = b ! j) \<and> field_less sg ((x # xs) ! k) (b ! k)"
    then obtain k where k: "k < length (x # xs)" "\<forall>j<k. (x # xs) ! j = b ! j"
      "field_less sg ((x # xs) ! k) (b ! k)" by blast
    show "tuple_less sg (x # xs) b"
    proof (cases k)
      case 0
      with k show ?thesis by (simp add: b)
    next
      case (Suc k')
      with k(2) have xy: "x = y" by (auto simp: b)
      have "k' < length xs" using k(1) Suc by simp
      moreover have "\<forall>j<k'. xs ! j = ys ! j"
      proof (intro allI impI)
        fix j assume "j < k'"
        then have "Suc j < k" using Suc by simp
        with k(2) have "(x # xs) ! Suc j = b ! Suc j" by blast
        then show "xs ! j = ys ! j" by (simp add: b)
      qed
      moreover have "field_less sg (xs ! k') (ys ! k')" using k(3) Suc by (simp add: b)
      ultimately have "tuple_less sg xs ys" using ih by blast
      then show ?thesis by (simp add: b xy field_less_irrefl)
    qed
  qed
qed

section \<open>The claims\<close>

text \<open>
  C1, as amended. A record with at least one field, whose strings hold no tab
  character and whose characters are not the tab, is formatted by
  \<^verbatim>\<open>to_string\<close>, and \<^verbatim>\<open>to_tuple\<close> over the tab-split of that text, into any
  record of the same schema, returns a record equal to it field by field.
\<close>

theorem parse_format_roundtrip:
  assumes "r \<noteq> []" and "list_all tab_free r" and "schema_of i = schema_of r"
  shows "\<exists>s. to_string r = Returns s \<and> to_tuple 0 (boost_split s) i = Returns r"
  using assms by (simp add: to_string_eq split_to_string to_tuple_tokens_of)

text \<open>
  The theorem at the record \<open>("chr1", -5, '+')\<close>, parsed into a default-constructed
  record.
\<close>

theorem parse_format_roundtrip_witness:
  "to_string [FText ''chr1'', FInt (- 5), FChar CHR ''+'']
     = Returns (''chr1'' @ [TAB] @ ''-5'' @ [TAB] @ ''+'')
   \<and> to_tuple 0 (boost_split (''chr1'' @ [TAB] @ ''-5'' @ [TAB] @ ''+'')) (Bed [TText, TInt, TChar])
     = Returns [FText ''chr1'', FInt (- 5), FChar CHR ''+'']"
proof -
  have 5: "int_to_string (- 5) = ''-5''"
    by (simp add: int_to_string_def dec_digits.simps digit_char_def char_of_def)
  have ts: "to_string [FText ''chr1'', FInt (- 5), FChar CHR ''+'']
              = Returns (''chr1'' @ [TAB] @ ''-5'' @ [TAB] @ ''+'')"
    by (simp add: to_string_eq row_def 5)
  obtain s where s: "to_string [FText ''chr1'', FInt (- 5), FChar CHR ''+''] = Returns s"
    and p: "to_tuple 0 (boost_split s) (Bed [TText, TInt, TChar])
              = Returns [FText ''chr1'', FInt (- 5), FChar CHR ''+'']"
    using parse_format_roundtrip [of "[FText ''chr1'', FInt (- 5), FChar CHR ''+'']"
        "Bed [TText, TInt, TChar]"]
    by (auto simp: schema_of_def Bed_def)
  from s ts have "s = ''chr1'' @ [TAB] @ ''-5'' @ [TAB] @ ''+''" by simp
  with p ts show ?thesis by simp
qed

text \<open>
  Without the two conditions the round trip fails. A string field \<^verbatim>\<open>a<TAB>b\<close> is
  formatted as it is, splits into two tokens, and the one-field record parsed from
  them holds \<^verbatim>\<open>a\<close>. A record with no field has no formatted text:
  \<^verbatim>\<open>get_string\<close> drops the last character of an empty string.
\<close>

theorem parse_format_roundtrip_counterexample:
  "to_string [FText (''a'' @ [TAB] @ ''b'')] = Returns (''a'' @ [TAB] @ ''b'')
   \<and> to_tuple 0 (boost_split (''a'' @ [TAB] @ ''b'')) (Bed [TText]) = Returns [FText ''a'']
   \<and> [FText ''a''] \<noteq> [FText (''a'' @ [TAB] @ ''b'')]
   \<and> to_string [] = Undefined"
  by (simp add: to_string_eq row_def to_tuple_step to_tuple_end Bed_def)

text \<open>
  C2, as amended. A token that does not start, after optional white space, with a
  valid decimal integer (an optional sign and at least one digit) makes
  \<^verbatim>\<open>to_tuple\<close> throw \<^verbatim>\<open>std::invalid_argument\<close> at the integer field it is bound
  to; the exception leaves with the record as it was on reaching that field, so
  nothing is bound there.
\<close>

theorem to_tuple_malformed_integer:
  assumes "N < length i" and "N < length rhs" and "type_of (i ! N) = TInt"
    and "\<not> (\<exists>ws p rest. rhs ! N = ws @ p @ rest \<and> list_all isspace ws \<and> valid_decimal p)"
  shows "to_tuple N rhs i = Throws Invalid_argument i"
proof -
  have "stoi (rhs ! N) = Inl Invalid_argument"
    using assms(4) stoi_leading_integer by blast
  moreover obtain w where "i ! N = FInt w" using assms(3) by (cases "i ! N") auto
  ultimately show ?thesis using assms(1,2) by (simp add: to_tuple_step)
qed

text \<open>
  The theorem at the token \<^verbatim>\<open>x12\<close> for the second field.
\<close>

theorem to_tuple_malformed_integer_witness:
  "to_tuple 1 [''chr1'', ''x12'', ''200''] [FText ''chr1'', FInt 7, FInt 8]
     = Throws Invalid_argument [FText ''chr1'', FInt 7, FInt 8]"
proof -
  have "\<not> (\<exists>ws p rest. ''x12'' = ws @ p @ rest \<and> list_all isspace ws \<and> valid_decimal p)"
  proof
    assume "\<exists>ws p rest. ''x12'' = ws @ p @ rest \<and> list_all isspace ws \<and> valid_decimal p"
    then obtain ws p rest where e: "''x12'' = ws @ p @ rest"
      and ws: "list_all isspace ws" and p: "valid_decimal p" by blast
    from p have pne: "p \<noteq> []" by (auto simp: valid_decimal_def Let_def split: if_splits)
    show False
    proof (cases ws)
      case Nil
      with e pne have "hd p = CHR ''x''" by (cases p) auto
      with p pne show False
        by (cases p) (auto simp: valid_decimal_def Let_def isdigit_def split: if_splits)
    next
      case (Cons c cs)
      with e have "c = CHR ''x''" by simp
      with ws Cons show False by (simp add: isspace_def)
    qed
  qed
  then show ?thesis
    using to_tuple_malformed_integer [of 1 "[FText ''chr1'', FInt 7, FInt 8]" "[''chr1'', ''x12'', ''200'']"]
    by simp
qed

text \<open>
  The token \<^verbatim>\<open>12a\<close> is not a valid decimal integer, and binding it to an integer
  field does not fail: \<^verbatim>\<open>stoi\<close> converts the digits it starts with and the field
  holds 12.
\<close>

theorem to_tuple_malformed_integer_counterexample:
  "\<not> valid_decimal ''12a''
   \<and> to_tuple 0 [''12a''] [FInt 7] = Returns [FInt 12]"
proof -
  have "stoi ''12a'' = Inr 12"
    by (simp add: stoi_def isspace_def isdigit_def dec_value_def digit_val_def)
  then show ?thesis
    by (simp add: to_tuple_step to_tuple_end valid_decimal_def isdigit_def)
qed

text \<open>
  C3, as amended. When the line \<^verbatim>\<open>get_obj\<close> reads has at least as many tokens
  as the record has fields, the outcome is that of binding the first tokens, one
  per field, alone: the tokens after them are not looked at, no error comes from
  their presence, and no read goes past the end of the token vector.
\<close>

theorem get_obj_surplus_tokens:
  assumes "getline rhs = (rhs', Some l)" and "boost_split l = toks @ extra"
    and "length toks = length i"
  shows "get_obj rhs i = (case to_tuple 0 toks i of
                            Returns i' \<Rightarrow> Returns (rhs', i')
                          | Throws e i' \<Rightarrow> Throws e (rhs', i')
                          | Undefined \<Rightarrow> Undefined)
         \<and> to_tuple 0 toks i \<noteq> Undefined"
  using assms by (simp add: get_obj_def to_tuple_prefix to_tuple_defined)

text \<open>
  The theorem at a line of four tokens read into the three-field record.
\<close>

theorem get_obj_surplus_tokens_witness:
  "get_obj \<lparr>buf = ''chr1'' @ [TAB] @ ''100'' @ [TAB] @ ''200'' @ [TAB] @ ''x'' @ [NL] @ ''rest'',
            eofbit = False, failbit = False, badbit = False\<rparr> (Bed [TText, TInt, TInt])
     = Returns (\<lparr>buf = ''rest'', eofbit = False, failbit = False, badbit = False\<rparr>,
                [FText ''chr1'', FInt 100, FInt 200])"
  using get_obj_surplus_tokens [of
      "\<lparr>buf = ''chr1'' @ [TAB] @ ''100'' @ [TAB] @ ''200'' @ [TAB] @ ''x'' @ [NL] @ ''rest'',
            eofbit = False, failbit = False, badbit = False\<rparr>"
      "\<lparr>buf = ''rest'', eofbit = False, failbit = False, badbit = False\<rparr>"
      "''chr1'' @ [TAB] @ ''100'' @ [TAB] @ ''200'' @ [TAB] @ ''x''"
      "[''chr1'', ''100'', ''200'']" "[''x'']" "Bed [TText, TInt, TInt]"]
  by (simp add: getline_def good_def Bed_def to_tuple_step to_tuple_end stoi_100 stoi_200)

text \<open>
  A line of four tokens is read into the three-field record with no error. A line
  of two tokens is not rejected either: after binding both, \<^verbatim>\<open>to_tuple\<close> reads
  \<^verbatim>\<open>rhs[2]\<close> of a vector of size 2.
\<close>

theorem field_count_mismatch_counterexample:
  "get_obj \<lparr>buf = ''chr1'' @ [TAB] @ ''100'' @ [TAB] @ ''200'' @ [TAB] @ ''x'',
            eofbit = False, failbit = False, badbit = False\<rparr> (Bed [TText, TInt, TInt])
     = Returns (\<lparr>buf = [], eofbit = True, failbit = False, badbit = False\<rparr>,
                [FText ''chr1'', FInt 100, FInt 200])
   \<and> get_obj \<lparr>buf = ''chr1'' @ [TAB] @ ''100'',
            eofbit = False, failbit = False, badbit = False\<rparr> (Bed [TText, TInt, TInt])
     = Undefined"
  by (simp add: get_obj_def getline_def good_def Bed_def to_tuple_step to_tuple_end to_tuple_short
      stoi_100 stoi_200)

text \<open>
  C4. When no further line is available (nothing left to read, or the stream is no
  longer good), \<^verbatim>\<open>get_obj\<close> returns normally, throws nothing, leaves every field
  of the target record as it was, and the stream has \<^verbatim>\<open>failbit\<close> set, which is
  what the caller's loop tests.
\<close>

theorem get_obj_end_of_stream:
  "buf rhs = [] \<or> \<not> good rhs \<Longrightarrow>
   get_obj rhs i = Returns (fst (getline rhs), i) \<and> failbit (fst (getline rhs))"
  by (auto simp: get_obj_def getline_def Let_def)

text \<open>
  The theorem at an empty stream and the record \<open>("chr1", 100, 200)\<close>.
\<close>

theorem get_obj_end_of_stream_witness:
  "get_obj \<lparr>buf = [], eofbit = False, failbit = False, badbit = False\<rparr> [FText ''chr1'', FInt 100, FInt 200]
     = Returns (\<lparr>buf = [], eofbit = True, failbit = True, badbit = False\<rparr>, [FText ''chr1'', FInt 100, FInt 200])"
  using get_obj_end_of_stream [of "\<lparr>buf = [], eofbit = False, failbit = False, badbit = False\<rparr>"
      "[FText ''chr1'', FInt 100, FInt 200]"]
  by (simp add: getline_def good_def)

text \<open>
  C5. The tokens \<^verbatim>\<open>2147483647\<close> and \<^verbatim>\<open>-2147483648\<close> bind exactly the largest and
  the smallest \<^verbatim>\<open>int32_t\<close> to an integer field, whatever it held, and formatting
  those two values gives the same tokens back; the token \<^verbatim>\<open>2147483648\<close> throws
  \<^verbatim>\<open>std::out_of_range\<close> and the field keeps its value.
\<close>

theorem int32_boundary_tokens:
  "to_tuple 0 [''2147483647''] [FInt w] = Returns [FInt 2147483647]
   \<and> to_tuple 0 [''-2147483648''] [FInt w] = Returns [FInt (- 2147483648)]
   \<and> sint (2147483647 :: 32 word) = 2147483647
   \<and> sint (- 2147483648 :: 32 word) = - 2147483648
   \<and> to_string [FInt 2147483647] = Returns ''2147483647''
   \<and> to_string [FInt (- 2147483648)] = Returns ''-2147483648''
   \<and> to_tuple 0 [''2147483648''] [FInt w] = Throws Out_of_range [FInt w]"
proof -
  have a: "stoi ''2147483647'' = Inr 2147483647"
    by (simp add: stoi_def isspace_def isdigit_def dec_value_def digit_val_def)
  have b: "stoi ''-2147483648'' = Inr (- 2147483648)"
    by (simp add: stoi_def isspace_def isdigit_def dec_value_def digit_val_def)
  have c: "stoi ''2147483648'' = Inl Out_of_range"
    by (simp add: stoi_def isspace_def isdigit_def dec_value_def digit_val_def)
  have d: "int_to_string 2147483647 = ''2147483647''"
    by (simp add: int_to_string_def dec_digits.simps digit_char_def char_of_def)
  have e: "int_to_string (- 2147483648) = ''-2147483648''"
    by (simp add: int_to_string_def dec_digits.simps digit_char_def char_of_def)
  show ?thesis
    by (simp add: to_tuple_step to_tuple_end a b c to_string_eq row_def d e)
qed

text \<open>
  C6, as amended. An empty token bound to a character field raises no error:
  \<^verbatim>\<open>rhs[N][0]\<close> of the empty string is the null character, the field is
  assigned it, and \<^verbatim>\<open>to_tuple\<close> goes on with the next field.
\<close>

theorem to_tuple_empty_char_token:
  assumes "N < length i" and "N < length rhs" and "type_of (i ! N) = TChar" and "rhs ! N = []"
  shows "to_tuple N rhs i = to_tuple (Suc N) rhs (i[N := FChar (CHR 0x00)])"
proof -
  obtain c where "i ! N = FChar c" using assms(3) by (cases "i ! N") auto
  then show ?thesis using assms(1,2,4) by (simp add: to_tuple_step string_at0_def)
qed

text \<open>
  The theorem at the line \<^verbatim>\<open>chr1<TAB><TAB>5\<close>, from the character field on.
\<close>

theorem to_tuple_empty_char_token_witness:
  "to_tuple 1 [''chr1'', [], ''5''] [FText ''chr1'', FChar CHR ''+'', FInt 0]
     = Returns [FText ''chr1'', FChar (CHR 0x00), FInt 5]"
proof -
  have "stoi ''5'' = Inr 5"
    by (simp add: stoi_def isspace_def isdigit_def dec_value_def digit_val_def)
  then show ?thesis
    using to_tuple_empty_char_token [of 1 "[FText ''chr1'', FChar CHR ''+'', FInt 0]" "[''chr1'', [], ''5'']"]
    by (simp add: to_tuple_step to_tuple_end)
qed

text \<open>
  The tokens \<^verbatim>\<open>chr1\<close> and the empty one, bound to a string and a character
  field holding \<^verbatim>\<open>+\<close>: the call returns, and the character field holds the null
  character.
\<close>

theorem to_tuple_empty_char_token_counterexample:
  "to_tuple 0 [''chr1'', []] [FText [], FChar CHR ''+''] = Returns [FText ''chr1'', FChar (CHR 0x00)]"
  by (simp add: to_tuple_step to_tuple_end string_at0_def)

text \<open>
  C7, as amended. For a container whose records all have at least one field,
  \<^verbatim>\<open>dump\<close> makes one insertion into the output stream, of the text made of the
  formatted text of every record followed by one newline, in the order of the
  container, each record as often as it occurs there. On a good stream whose field
  width is not more than the length of that text (0, unless the caller has set
  one), exactly that text is appended. With a larger width the fill characters
  that make up the difference are written too, once for the whole text. A stream
  that is not good is left as it is.
\<close>

theorem dump_emits_in_order:
  assumes "\<forall>r \<in> set c. r \<noteq> []"
  shows "(\<forall>r \<in> set c. to_string r = Returns (format_text r))
       \<and> dump rhs c = Returns (ostream_insert rhs (concat (map (\<lambda>r. format_text r @ [NL]) c)))
       \<and> (os_good rhs \<and> width rhs \<le> length (concat (map (\<lambda>r. format_text r @ [NL]) c)) \<longrightarrow>
            dump rhs c = Returns (rhs\<lparr>out := out rhs @ concat (map (\<lambda>r. format_text r @ [NL]) c),
                                     width := 0\<rparr>))
       \<and> (os_good rhs \<and> length (concat (map (\<lambda>r. format_text r @ [NL]) c)) < width rhs \<longrightarrow>
            dump rhs c = Returns (rhs\<lparr>out := out rhs @
                (if adjust_left rhs
                 then concat (map (\<lambda>r. format_text r @ [NL]) c)
                      @ replicate (width rhs - length (concat (map (\<lambda>r. format_text r @ [NL]) c))) (fill rhs)
                 else replicate (width rhs - length (concat (map (\<lambda>r. format_text r @ [NL]) c))) (fill rhs)
                      @ concat (map (\<lambda>r. format_text r @ [NL]) c)),
              width := 0\<rparr>))
       \<and> (\<not> os_good rhs \<longrightarrow> dump rhs c = Returns rhs)"
proof -
  let ?s = "concat (map (\<lambda>r. format_text r @ [NL]) c)"
  have f: "\<forall>r \<in> set c. to_string r = Returns (format_text r)"
    using assms by (simp add: to_string_eq format_text_def)
  have l: "dump_loop c [] = Returns ([] @ ?s)"
    using f by (rule dump_loop_eq)
  have d: "dump rhs c = Returns (ostream_insert rhs ?s)"
    using l by (simp add: dump_def)
  have g: "os_good rhs \<and> width rhs \<le> length ?s \<longrightarrow>
             ostream_insert rhs ?s = rhs\<lparr>out := out rhs @ ?s, width := 0\<rparr>"
    by (simp add: ostream_insert_def)
  have n: "os_good rhs \<and> length ?s < width rhs \<longrightarrow>
             ostream_insert rhs ?s = rhs\<lparr>out := out rhs @
                (if adjust_left rhs then ?s @ replicate (width rhs - length ?s) (fill rhs)
                 else replicate (width rhs - length ?s) (fill rhs) @ ?s),
              width := 0\<rparr>"
    by (simp add: ostream_insert_def Let_def)
  have b: "\<not> os_good rhs \<longrightarrow> ostream_insert rhs ?s = rhs"
    by (simp add: ostream_insert_def)
  from f d g n b show ?thesis by simp
qed

text \<open>
  The theorem at a container that is not sorted and holds one record twice, and a
  good stream of width 0 that holds \<^verbatim>\<open>#\<close>.
\<close>

theorem dump_emits_in_order_witness:
  "dump \<lparr>out = ''#'', os_good = True, width = 0, fill = CHR '' '', adjust_left = False\<rparr>
        [[FText ''b'', FInt 2], [FText ''a'', FInt 1], [FText ''b'', FInt 2]]
     = Returns \<lparr>out = ''#'' @ ''b'' @ [TAB] @ ''2'' @ [NL] @ ''a'' @ [TAB] @ ''1'' @ [NL]
                          @ ''b'' @ [TAB] @ ''2'' @ [NL],
                os_good = True, width = 0, fill = CHR '' '', adjust_left = False\<rparr>"
proof -
  have 1: "int_to_string 1 = ''1''"
    by (simp add: int_to_string_def dec_digits.simps digit_char_def char_of_def)
  have 2: "int_to_string 2 = ''2''"
    by (simp add: int_to_string_def dec_digits.simps digit_char_def char_of_def)
  show ?thesis
    using dump_emits_in_order [of "[[FText ''b'', FInt 2], [FText ''a'', FInt 1], [FText ''b'', FInt 2]]"
        "\<lparr>out = ''#'', os_good = True, width = 0, fill = CHR '' '', adjust_left = False\<rparr>"]
    by (simp add: format_text_def row_def ostream_insert_def 1 2)
qed

text \<open>
  The emitted text is not always the concatenation. On a stream of width 12 with
  the fill character \<^verbatim>\<open>.\<close>, the 8 characters of two records come after 4 fill
  characters. On a stream that is not good nothing is emitted. A container that
  holds a record with no field has no text to emit: \<^verbatim>\<open>to_string\<close> of that
  record drops the last character of an empty string.
\<close>

theorem dump_emits_in_order_counterexample:
  "dump \<lparr>out = ''#'', os_good = True, width = 12, fill = CHR ''.'', adjust_left = False\<rparr>
        [[FText ''b'', FInt 2], [FText ''a'', FInt 1]]
     = Returns \<lparr>out = ''#....'' @ ''b'' @ [TAB] @ ''2'' @ [NL] @ ''a'' @ [TAB] @ ''1'' @ [NL],
                os_good = True, width = 0, fill = CHR ''.'', adjust_left = False\<rparr>
   \<and> dump \<lparr>out = ''#'', os_good = False, width = 0, fill = CHR '' '', adjust_left = False\<rparr>
        [[FText ''b'', FInt 2], [FText ''a'', FInt 1]]
     = Returns \<lparr>out = ''#'', os_good = False, width = 0, fill = CHR '' '', adjust_left = False\<rparr>
   \<and> dump \<lparr>out = ''#'', os_good = True, width = 0, fill = CHR '' '', adjust_left = False\<rparr> [[]]
     = Undefined"
proof -
  have 1: "int_to_string 1 = ''1''"
    by (simp add: int_to_string_def dec_digits.simps digit_char_def char_of_def)
  have 2: "int_to_string 2 = ''2''"
    by (simp add: int_to_string_def dec_digits.simps digit_char_def char_of_def)
  show ?thesis
    by (simp add: dump_def to_string_eq row_def ostream_insert_def eval_nat_numeral 1 2)
qed

text \<open>
  C8. On records of one schema \<^verbatim>\<open>operator<\<close> is a strict total order: of
  \<open>a < b\<close>, \<open>b < a\<close> and \<open>a = b\<close> exactly one holds, the order is transitive,
  and \<open>a < b\<close> holds exactly when at the first position where the two records
  differ the field of \<open>a\<close> is less than the field of \<open>b\<close> in the order of its
  type, position 0 first.
\<close>

theorem bed_less_strict_total_order:
  assumes "schema_of a = schema_of b" and "schema_of b = schema_of c"
  shows "((bed_less sg a b \<and> \<not> bed_less sg b a \<and> a \<noteq> b)
          \<or> (\<not> bed_less sg a b \<and> bed_less sg b a \<and> a \<noteq> b)
          \<or> (\<not> bed_less sg a b \<and> \<not> bed_less sg b a \<and> a = b))
       \<and> (bed_less sg a b \<and> bed_less sg b c \<longrightarrow> bed_less sg a c)
       \<and> (bed_less sg a b \<longleftrightarrow>
            (\<exists>k<length a. (\<forall>j<k. a ! j = b ! j) \<and> field_less sg (a ! k) (b ! k)))"
proof (intro conjI)
  show "(bed_less sg a b \<and> \<not> bed_less sg b a \<and> a \<noteq> b)
          \<or> (\<not> bed_less sg a b \<and> bed_less sg b a \<and> a \<noteq> b)
          \<or> (\<not> bed_less sg a b \<and> \<not> bed_less sg b a \<and> a = b)"
    using tuple_less_total [OF assms(1), of sg] tuple_less_asym [of sg a b]
      tuple_less_asym [of sg b a] tuple_less_irrefl [of sg a]
    unfolding bed_less_def by blast
  show "bed_less sg a b \<and> bed_less sg b c \<longrightarrow> bed_less sg a c"
    using tuple_less_trans [of sg a b c] assms unfolding bed_less_def by blast
  show "bed_less sg a b \<longleftrightarrow>
            (\<exists>k<length a. (\<forall>j<k. a ! j = b ! j) \<and> field_less sg (a ! k) (b ! k))"
    unfolding bed_less_def using assms(1) by (rule tuple_less_lex)
qed

text \<open>
  The theorem at three records of the schema string, integer, character.
\<close>

theorem bed_less_strict_total_order_witness:
  "bed_less True [FText ''chr1'', FInt (- 5), FChar CHR ''+''] [FText ''chr1'', FInt 100, FChar CHR ''-'']
   \<and> bed_less True [FText ''chr1'', FInt 100, FChar CHR ''-''] [FText ''chr2'', FInt 5, FChar CHR ''+'']
   \<and> bed_less True [FText ''chr1'', FInt (- 5), FChar CHR ''+''] [FText ''chr2'', FInt 5, FChar CHR ''+'']
   \<and> \<not> bed_less True [FText ''chr1'', FInt 100, FChar CHR ''-''] [FText ''chr1'', FInt (- 5), FChar CHR ''+'']"
  using bed_less_strict_total_order [of "[FText ''chr1'', FInt (- 5), FChar CHR ''+'']"
      "[FText ''chr1'', FInt 100, FChar CHR ''-'']" "[FText ''chr2'', FInt 5, FChar CHR ''+'']" True]
  by (simp add: schema_of_def bed_less_def)

text \<open>
  C9, as amended. For a record with at least one field, whose strings hold no tab
  character and whose characters are not the tab, \<^verbatim>\<open>to_string\<close> returns a text
  that splits at the tabs into the texts of the fields, one token per field in
  order, has one tab less than the record has fields, and ends with the text of
  the last field with nothing after it. The record \<open>("chr1", 100, 200)\<close> gives
  \<^verbatim>\<open>chr1<TAB>100<TAB>200\<close>.
\<close>

theorem to_string_field_count:
  "(r \<noteq> [] \<and> list_all tab_free r \<longrightarrow>
      (\<exists>s. to_string r = Returns s
         \<and> boost_split s = map lexical_cast r
         \<and> length (boost_split s) = length r
         \<and> length (filter (\<lambda>c. c = TAB) s) = length r - 1
         \<and> s = row (map lexical_cast (butlast r)) @ lexical_cast (last r)))
   \<and> to_string [FText ''chr1'', FInt 100, FInt 200]
       = Returns (''chr1'' @ [TAB] @ ''100'' @ [TAB] @ ''200'')"
proof (intro conjI impI)
  assume a: "r \<noteq> [] \<and> list_all tab_free r"
  let ?s = "butlast (row (map lexical_cast r))"
  have sp: "boost_split ?s = map lexical_cast r" using a by (simp add: split_to_string)
  have "length (boost_split ?s) = Suc (length (filter (\<lambda>c. c = TAB) ?s))"
    by (rule length_boost_split)
  then have tabs: "length (filter (\<lambda>c. c = TAB) ?s) = length r - 1" using sp by simp
  have "?s = row (butlast (map lexical_cast r)) @ last (map lexical_cast r)"
    using a by (intro row_last) simp
  then have "?s = row (map lexical_cast (butlast r)) @ lexical_cast (last r)"
    using a by (simp add: map_butlast last_map)
  with a sp tabs show "\<exists>s. to_string r = Returns s
         \<and> boost_split s = map lexical_cast r
         \<and> length (boost_split s) = length r
         \<and> length (filter (\<lambda>c. c = TAB) s) = length r - 1
         \<and> s = row (map lexical_cast (butlast r)) @ lexical_cast (last r)"
    by (simp add: to_string_eq)
next
  have 1: "int_to_string 100 = ''100''"
    by (simp add: int_to_string_def dec_digits.simps digit_char_def char_of_def)
  have 2: "int_to_string 200 = ''200''"
    by (simp add: int_to_string_def dec_digits.simps digit_char_def char_of_def)
  show "to_string [FText ''chr1'', FInt 100, FInt 200]
       = Returns (''chr1'' @ [TAB] @ ''100'' @ [TAB] @ ''200'')"
    by (simp add: to_string_eq row_def 1 2)
qed

text \<open>
  The theorem at the record \<open>("chrX", '-', 7)\<close>.
\<close>

theorem to_string_field_count_witness:
  "to_string [FText ''chrX'', FChar CHR ''-'', FInt 7] = Returns (''chrX'' @ [TAB] @ ''-'' @ [TAB] @ ''7'')
   \<and> boost_split (''chrX'' @ [TAB] @ ''-'' @ [TAB] @ ''7'') = [''chrX'', ''-'', ''7'']
   \<and> length (filter (\<lambda>c. c = TAB) (''chrX'' @ [TAB] @ ''-'' @ [TAB] @ ''7'')) = 2"
proof -
  have 7: "int_to_string 7 = ''7''"
    by (simp add: int_to_string_def dec_digits.simps digit_char_def char_of_def)
  have ts: "to_string [FText ''chrX'', FChar CHR ''-'', FInt 7]
              = Returns (''chrX'' @ [TAB] @ ''-'' @ [TAB] @ ''7'')"
    by (simp add: to_string_eq row_def 7)
  obtain s where s: "to_string [FText ''chrX'', FChar CHR ''-'', FInt 7] = Returns s"
    and sp: "boost_split s = map lexical_cast [FText ''chrX'', FChar CHR ''-'', FInt 7]"
    and tb: "length (filter (\<lambda>c. c = TAB) s) = length [FText ''chrX'', FChar CHR ''-'', FInt 7] - 1"
    using to_string_field_count [of "[FText ''chrX'', FChar CHR ''-'', FInt 7]", THEN conjunct1]
    by auto
  from s ts have "s = ''chrX'' @ [TAB] @ ''-'' @ [TAB] @ ''7''" by simp
  with sp tb ts show ?thesis by (simp add: 7)
qed

text \<open>
  A record of one field, the string \<^verbatim>\<open>a<TAB>b\<close>: the formatted text has one tab
  and two tokens.
\<close>

theorem to_string_field_count_counterexample:
  "to_string [FText (''a'' @ [TAB] @ ''b'')] = Returns (''a'' @ [TAB] @ ''b'')
   \<and> length (filter (\<lambda>c. c = TAB) (''a'' @ [TAB] @ ''b'')) = 1
   \<and> length (boost_split (''a'' @ [TAB] @ ''b'')) = 2
   \<and> length [FText (''a'' @ [TAB] @ ''b'')] = 1"
  by (simp add: to_string_eq row_def)

text \<open>
  C10. \<^verbatim>\<open>to_tuple\<close> binds the tokens in the order of the fields, from position 0:
  when the token at position \<open>k\<close> is the first that fails, in \<^verbatim>\<open>stoi\<close>, the
  exception leaves with the fields before \<open>k\<close> holding the values of the new line
  and the fields from \<open>k\<close> on holding what they held before. The line
  \<^verbatim>\<open>chr1<TAB>100<TAB>abc\<close> read into the record \<open>("old", 1, 2)\<close> is such a line.
\<close>

theorem to_tuple_not_atomic:
  "(k < length i \<and> k < length rhs
      \<and> (\<forall>j<k. bind_tok (i ! j) (rhs ! j) = Inr (v j))
      \<and> type_of (i ! k) = TInt \<and> stoi (rhs ! k) = Inl e
    \<longrightarrow> to_tuple 0 rhs i = Throws e (map v [0..<k] @ drop k i))
   \<and> get_obj \<lparr>buf = ''chr1'' @ [TAB] @ ''100'' @ [TAB] @ ''abc'' @ [NL],
              eofbit = False, failbit = False, badbit = False\<rparr>
        [FText ''old'', FInt 1, FInt 2]
     = Throws Invalid_argument
         (\<lparr>buf = [], eofbit = False, failbit = False, badbit = False\<rparr>,
          [FText ''chr1'', FInt 100, FInt 2])"
proof (intro conjI impI)
  assume a: "k < length i \<and> k < length rhs
      \<and> (\<forall>j<k. bind_tok (i ! j) (rhs ! j) = Inr (v j))
      \<and> type_of (i ! k) = TInt \<and> stoi (rhs ! k) = Inl e"
  then obtain w where "i ! k = FInt w" by (cases "i ! k") auto
  with a have b: "bind_tok (i ! k) (rhs ! k) = Inl e" by simp
  have "to_tuple 0 rhs i = Throws e (take 0 i @ map v [0..<k] @ drop k i)"
    using a b by (intro to_tuple_first_failure) auto
  then show "to_tuple 0 rhs i = Throws e (map v [0..<k] @ drop k i)" by simp
next
  have "stoi ''abc'' = Inl Invalid_argument"
    by (simp add: stoi_def isspace_def isdigit_def)
  then show "get_obj \<lparr>buf = ''chr1'' @ [TAB] @ ''100'' @ [TAB] @ ''abc'' @ [NL],
              eofbit = False, failbit = False, badbit = False\<rparr>
        [FText ''old'', FInt 1, FInt 2]
     = Throws Invalid_argument
         (\<lparr>buf = [], eofbit = False, failbit = False, badbit = False\<rparr>,
          [FText ''chr1'', FInt 100, FInt 2])"
    by (simp add: get_obj_def getline_def good_def to_tuple_step stoi_100)
qed

text \<open>
  The theorem at a line of five tokens whose last token is not a number.
\<close>

theorem to_tuple_not_atomic_witness:
  "to_tuple 0 [''chr2'', ''7'', ''9x'', ''-'', ''zz''] [FText ''chr1'', FInt 1, FInt 2, FChar CHR ''+'', FInt 3]
     = Throws Invalid_argument [FText ''chr2'', FInt 7, FInt 9, FChar CHR ''-'', FInt 3]"
proof -
  have 7: "stoi ''7'' = Inr 7"
    by (simp add: stoi_def isspace_def isdigit_def dec_value_def digit_val_def)
  have 9: "stoi ''9x'' = Inr 9"
    by (simp add: stoi_def isspace_def isdigit_def dec_value_def digit_val_def)
  have z: "stoi ''zz'' = Inl Invalid_argument"
    by (simp add: stoi_def isspace_def isdigit_def)
  have all: "\<forall>j<4. bind_tok ([FText ''chr1'', FInt 1, FInt 2, FChar CHR ''+'', FInt 3] ! j)
                ([''chr2'', ''7'', ''9x'', ''-'', ''zz''] ! j)
              = Inr ([FText ''chr2'', FInt 7, FInt 9, FChar CHR ''-'', FInt 3] ! j)"
  proof (intro allI impI)
    fix j :: nat assume "j < 4"
    then consider "j = 0" | "j = 1" | "j = 2" | "j = 3" by linarith
    then show "bind_tok ([FText ''chr1'', FInt 1, FInt 2, FChar CHR ''+'', FInt 3] ! j)
                ([''chr2'', ''7'', ''9x'', ''-'', ''zz''] ! j)
              = Inr ([FText ''chr2'', FInt 7, FInt 9, FChar CHR ''-'', FInt 3] ! j)"
      by cases (simp_all add: 7 9 string_at0_def)
  qed
  have upt: "[0..<4] = [0, 1, 2, 3]" by (simp add: upt_rec)
  show ?thesis
    using to_tuple_not_atomic [of 4 "[FText ''chr1'', FInt 1, FInt 2, FChar CHR ''+'', FInt 3]"
        "[''chr2'', ''7'', ''9x'', ''-'', ''zz'']"
        "\<lambda>j. [FText ''chr2'', FInt 7, FInt 9, FChar CHR ''-'', FInt 3] ! j" Invalid_argument,
        THEN conjunct1] all z
    by (simp add: upt)
qed

end
